theory Spec2Isabelle
  imports Complex_Main "HOL-Library.Sublist" "HOL-Library.Char_ord" "HOL-Library.List_Lexorder"
begin

section \<open>Robots compliance analyzer (scraper/utils/robots_parser.py)\<close>

text \<open>
  \<^verbatim>\<open>RobotsRule\<close> is the dataclass of the source: a path, the allow flag and the
  sensitivity mark.
\<close>

record RobotsRule =
  path :: string
  allow :: bool
  is_sensitive :: bool

text \<open>
  \<^verbatim>\<open>sorted(rules, key=lambda x: len(x.path), reverse=True)\<close>: Python's sort is stable
  and \<^verbatim>\<open>reverse=True\<close> keeps the original order of rules with equal keys (the list is
  reversed, sorted and reversed again).
\<close>

definition sorted_rules :: "RobotsRule list \<Rightarrow> RobotsRule list" where
  "sorted_rules rules = rev (sort_key (\<lambda>x. length (path x)) (rev rules))"

text \<open>
  The path that \<^verbatim>\<open>is_allowed\<close> tests: \<^verbatim>\<open>urlparse(url).path\<close>, replaced by \<^verbatim>\<open>"/"\<close> when
  empty. \<^verbatim>\<open>urlparse\<close> belongs to the standard library; its path component is the
  parameter \<open>urlparse_path\<close>.
\<close>

definition request_path :: "(string \<Rightarrow> string) \<Rightarrow> string \<Rightarrow> string" where
  "request_path urlparse_path url =
     (let p = urlparse_path url in if p = [] then ''/'' else p)"

text \<open>
  \<^verbatim>\<open>RobotsParser.is_allowed\<close>: the first rule of the sorted list whose path is a prefix
  of the request path decides; without such a rule the URL is allowed.
\<close>

definition is_allowed :: "(string \<Rightarrow> string) \<Rightarrow> string \<Rightarrow> RobotsRule list \<Rightarrow> bool" where
  "is_allowed urlparse_path url rules =
     (case find (\<lambda>rule. prefix (path rule) (request_path urlparse_path url)) (sorted_rules rules) of
        Some rule \<Rightarrow> allow rule
      | None \<Rightarrow> True)"

section \<open>Fetch layer (scraper/fetcher.py)\<close>

text \<open>
  What a call can do besides returning: a Python call either returns a value or raises.
  \<open>Inl\<close> carries the exception that reaches the caller, \<open>Inr\<close> the returned value.
\<close>

datatype exn =
    RequestException string  \<comment> \<open>\<^verbatim>\<open>requests.RequestException\<close> and its subclasses\<close>
  | OtherException string    \<comment> \<open>any exception outside that hierarchy\<close>

text \<open>The response object of the HTTP library, with the fields the fetcher reads.\<close>

record Response =
  resp_status_code :: int
  resp_content :: string
  resp_headers :: "(string \<times> string) list"
  resp_url :: string
  apparent_encoding :: "string option"

record FetchResponse =
  status_code :: int
  content :: string
  headers :: "(string \<times> string) list"
  url :: string
  encoding :: "string option"

text \<open>
  The surroundings of the fetcher. \<^verbatim>\<open>_safe_get\<close> is imported from
  \<^verbatim>\<open>scraper/utils/clients.py\<close> but is not defined in the sources at hand, so the
  outcome of the \<open>n\<close>-th outbound request (its latency, and a response or an exception)
  is a parameter, as are the \<open>n\<close>-th draw of \<^verbatim>\<open>random.uniform(2, 5)\<close>, the time by which
  the \<open>n\<close>-th \<^verbatim>\<open>time.sleep\<close> oversleeps, the hash \<^verbatim>\<open>hashlib.md5(...).hexdigest()\<close> and the
  codec behind \<^verbatim>\<open>bytes.decode\<close> (\<open>None\<close> when it raises).
\<close>

record env =
  safe_get :: "nat \<Rightarrow> string \<Rightarrow> real \<times> (exn + Response)"
  uniform_2_5 :: "nat \<Rightarrow> real"
  oversleep :: "nat \<Rightarrow> real"
  md5_hexdigest :: "string \<Rightarrow> string"
  decode :: "string \<Rightarrow> string \<Rightarrow> string option"

text \<open>
  The observable world: the clock read by \<^verbatim>\<open>time.time()\<close>, the outbound requests issued
  so far (issue time and URL), the sleeps requested so far, the number of random draws
  and the files of the cache directory (file name to text).
\<close>

record world =
  clock :: real
  requests :: "(real \<times> string) list"
  sleeps :: "real list"
  draws :: nat
  files :: "string \<rightharpoonup> string"

text \<open>The fields of a \<^verbatim>\<open>WebFetcher\<close> instance that the methods below read or write.\<close>

record WebFetcher =
  delay_range :: "real \<times> real"
  last_request_time :: real
  cache_enabled :: bool

text \<open>\<^verbatim>\<open>WebFetcher.__init__\<close> with its default delay range.\<close>

definition WebFetcher_init :: "string option \<Rightarrow> WebFetcher" where
  "WebFetcher_init cache_dir =
     \<lparr>delay_range = (1.0, 3.0), last_request_time = 0.0, cache_enabled = (cache_dir \<noteq> None)\<rparr>"

text \<open>\<^verbatim>\<open>time.sleep(d)\<close>: the clock advances by \<open>d\<close> and by the oversleep of this call.\<close>

definition sleep :: "env \<Rightarrow> real \<Rightarrow> world \<Rightarrow> world" where
  "sleep e d w = w\<lparr>clock := clock w + d + oversleep e (length (sleeps w)),
                   sleeps := sleeps w @ [d]\<rparr>"

definition get_cache_path :: "env \<Rightarrow> string \<Rightarrow> string" where
  "get_cache_path e u = md5_hexdigest e u @ ''.html''"

text \<open>\<^verbatim>\<open>_check_cache\<close>: the cached text of the URL when the cache is on and the file exists.\<close>

definition check_cache :: "env \<Rightarrow> WebFetcher \<Rightarrow> world \<Rightarrow> string \<Rightarrow> string option" where
  "check_cache e f w u =
     (if \<not> cache_enabled f then None else files w (get_cache_path e u))"

text \<open>\<^verbatim>\<open>_save_to_cache\<close>: writes the file when the cache is on; the flag tells whether it did.\<close>

definition save_to_cache :: "env \<Rightarrow> WebFetcher \<Rightarrow> world \<Rightarrow> string \<Rightarrow> string \<Rightarrow> bool \<times> world" where
  "save_to_cache e f w u text =
     (if \<not> cache_enabled f then (False, w)
      else (True, w\<lparr>files := (files w)(get_cache_path e u \<mapsto> text)\<rparr>))"

text \<open>
  \<^verbatim>\<open>_respect_politeness\<close>: sleeps for what is missing to the minimum delay since the last
  stamp, then stamps \<^verbatim>\<open>last_request_time\<close> with the clock.
\<close>

definition respect_politeness :: "env \<Rightarrow> WebFetcher \<Rightarrow> world \<Rightarrow> WebFetcher \<times> world" where
  "respect_politeness e f w =
     (let current_time = clock w;
          elapsed = current_time - last_request_time f;
          min_delay = fst (delay_range f);
          w1 = (if elapsed < min_delay then sleep e (min_delay - elapsed) w else w)
      in (f\<lparr>last_request_time := clock w1\<rparr>, w1))"

text \<open>
  One outbound request: it is logged with its issue time, and the clock moves on by the
  time the request takes.
\<close>

definition issue :: "string \<Rightarrow> real \<Rightarrow> world \<Rightarrow> world" where
  "issue u latency w =
     w\<lparr>requests := requests w @ [(clock w, u)], clock := clock w + latency\<rparr>"

text \<open>
  The \<^verbatim>\<open>while attempt < retries\<close> loop of \<^verbatim>\<open>fetch_full_response\<close>. Each round issues one
  request; a response is returned at once, a \<^verbatim>\<open>requests.RequestException\<close> is caught and
  followed, unless it was the last round, by a sleep of \<^verbatim>\<open>random.uniform(2, 5) * attempt\<close>;
  any other exception leaves the function.
\<close>

function attempt_loop ::
  "env \<Rightarrow> string \<Rightarrow> int \<Rightarrow> int \<Rightarrow> world \<Rightarrow> (exn + FetchResponse option) \<times> world" where
  "attempt_loop e u retries attempt w =
     (if attempt < retries then
        (case safe_get e (length (requests w)) u of (latency, outcome) \<Rightarrow>
           let w1 = issue u latency w in
           (case outcome of
              Inr response \<Rightarrow>
                (Inr (Some \<lparr>status_code = resp_status_code response,
                             content = resp_content response,
                             headers = resp_headers response,
                             url = resp_url response,
                             encoding = apparent_encoding response\<rparr>), w1)
            | Inl (RequestException msg) \<Rightarrow>
                (if attempt + 1 < retries then
                   attempt_loop e u retries (attempt + 1)
                     (sleep e (uniform_2_5 e (draws w1) * real_of_int (attempt + 1))
                        (w1\<lparr>draws := Suc (draws w1)\<rparr>))
                 else attempt_loop e u retries (attempt + 1) w1)
            | Inl (OtherException msg) \<Rightarrow> (Inl (OtherException msg), w1)))
      else (Inr None, w))"
  by pat_completeness auto
termination
  by (relation "measure (\<lambda>(e, u, retries, attempt, w). nat (retries - attempt))") auto

text \<open>\<^verbatim>\<open>fetch_full_response\<close>; \<open>force_download\<close> and \<open>timeout\<close> are accepted as in the source.\<close>

definition fetch_full_response ::
  "env \<Rightarrow> WebFetcher \<Rightarrow> world \<Rightarrow> string \<Rightarrow> bool \<Rightarrow> int \<Rightarrow> int
     \<Rightarrow> (exn + FetchResponse option) \<times> WebFetcher \<times> world" where
  "fetch_full_response e f w u force_download timeout retries =
     (case respect_politeness e f w of (f1, w1) \<Rightarrow>
        (case attempt_loop e u retries 0 w1 of (res, w2) \<Rightarrow> (res, f1, w2)))"

text \<open>
  \<^verbatim>\<open>fetch\<close>: the text of the full response. It goes through \<^verbatim>\<open>fetch_full_response\<close>
  whatever \<open>force_download\<close> says; a failing codec gives \<open>None\<close>.
\<close>

definition fetch ::
  "env \<Rightarrow> WebFetcher \<Rightarrow> world \<Rightarrow> string \<Rightarrow> bool \<Rightarrow> int \<Rightarrow> int
     \<Rightarrow> (exn + string option) \<times> WebFetcher \<times> world" where
  "fetch e f w u force_download timeout retries =
     (case fetch_full_response e f w u force_download timeout retries of
        (Inl x, f1, w1) \<Rightarrow> (Inl x, f1, w1)
      | (Inr None, f1, w1) \<Rightarrow> (Inr None, f1, w1)
      | (Inr (Some response_obj), f1, w1) \<Rightarrow>
          (if content response_obj \<noteq> [] then
             (Inr (decode e (case encoding response_obj of
                               Some enc \<Rightarrow> (if enc \<noteq> [] then enc else ''utf-8'')
                             | None \<Rightarrow> ''utf-8'')
                            (content response_obj)), f1, w1)
           else (Inr None, f1, w1)))"

text \<open>Time that passes in the caller between two calls of the fetcher.\<close>

definition elapse :: "real \<Rightarrow> world \<Rightarrow> world" where
  "elapse d w = w\<lparr>clock := clock w + d\<rparr>"

declare attempt_loop.simps [simp del]

text \<open>
  The backoff sleeps that follow \<open>k\<close> failed rounds, the first of them being round
  \<open>attempt + 1\<close>, with the random draws numbered from \<open>d\<close>:
  \<^verbatim>\<open>random.uniform(2, 5) * attempt\<close> for each.
\<close>

definition backoffs :: "env \<Rightarrow> nat \<Rightarrow> int \<Rightarrow> nat \<Rightarrow> real list" where
  "backoffs e d attempt k =
     map (\<lambda>i. uniform_2_5 e (d + i) * real_of_int (attempt + 1 + int i)) [0..<k]"

text \<open>
  Concrete surroundings for the examples: a server that answers every request, a network
  on which every request times out, and an HTTP helper that fails with an exception
  outside the \<^verbatim>\<open>requests\<close> hierarchy.
\<close>

definition live_response :: Response where
  "live_response = \<lparr>resp_status_code = 200, resp_content = ''live'', resp_headers = [],
                     resp_url = ''http://a'', apparent_encoding = Some ''utf-8''\<rparr>"

definition env_live :: env where
  "env_live = \<lparr>safe_get = (\<lambda>n v. (1 / 2, Inr live_response)),
                uniform_2_5 = (\<lambda>n. 3), oversleep = (\<lambda>n. 0),
                md5_hexdigest = (\<lambda>v. v), decode = (\<lambda>enc b. Some b)\<rparr>"

definition env_down :: env where
  "env_down = \<lparr>safe_get = (\<lambda>n v. (30, Inl (RequestException ''timeout''))),
                uniform_2_5 = (\<lambda>n. 3), oversleep = (\<lambda>n. 0),
                md5_hexdigest = (\<lambda>v. v), decode = (\<lambda>enc b. Some b)\<rparr>"

definition env_crash :: env where
  "env_crash = \<lparr>safe_get = (\<lambda>n v. (0, Inl (OtherException ''ValueError''))),
                 uniform_2_5 = (\<lambda>n. 3), oversleep = (\<lambda>n. 0),
                 md5_hexdigest = (\<lambda>v. v), decode = (\<lambda>enc b. Some b)\<rparr>"

definition world0 :: world where
  "world0 = \<lparr>clock = 10, requests = [], sleeps = [], draws = 0, files = Map.empty\<rparr>"

definition cached_world :: world where
  "cached_world = \<lparr>clock = 10, requests = [], sleeps = [], draws = 0,
                    files = [''http://a.html'' \<mapsto> ''cached'']\<rparr>"

section \<open>Entity resolution and profile store (scraper/extractors/osint_extractor.py)\<close>

text \<open>
  Modelled from the spec: the schema of the OSINT store (\<^verbatim>\<open>db/schema.py\<close> is imported by
  \<^verbatim>\<open>db/manager.py\<close> but is not among the sources at hand). The spec gives
  \<^verbatim>\<open>entities(id, kind, name, domain, created_at)\<close> unique on (name, kind, domain) and
  \<^verbatim>\<open>osint_profiles(entity_id, source, raw_data, extracted_fields, updated_at)\<close> unique on
  (entity_id, source). The column that the code calls \<^verbatim>\<open>type\<close> is \<open>entity_type\<close> here;
  a \<open>None\<close> domain is SQL's \<^verbatim>\<open>NULL\<close>.
\<close>

record entity_row =
  row_id :: nat
  entity_type :: string
  entity_name :: string
  entity_domain :: "string option"

record profile_row =
  entity_id :: nat
  source :: string
  raw_data :: string
  extracted_fields :: string
  updated_at :: "nat option"

text \<open>
  The OSINT store: whether a connection can be had (\<^verbatim>\<open>DatabaseManager.transaction\<close> raises
  \<^verbatim>\<open>ConnectionError\<close> otherwise) and the two tables, rows in rowid order.
\<close>

record osint_db =
  connectable :: bool
  entities :: "entity_row list"
  osint_profiles :: "profile_row list"

datatype db_error = ConnectionError | ValueError string | EncodeError

text \<open>
  The uniqueness test of \<^verbatim>\<open>entities\<close> as SQLite makes it: the columns of a \<^verbatim>\<open>UNIQUE\<close>
  constraint are compared with \<^verbatim>\<open>NULL\<close> distinct from every value, another \<^verbatim>\<open>NULL\<close>
  included, so a row with a \<^verbatim>\<open>NULL\<close> domain clashes with no row.
\<close>

definition unique_clash :: "entity_row \<Rightarrow> string \<Rightarrow> string \<Rightarrow> string option \<Rightarrow> bool" where
  "unique_clash r t n d =
     (entity_name r = n \<and> entity_type r = t \<and>
      (case (entity_domain r, d) of (Some a, Some b) \<Rightarrow> a = b | _ \<Rightarrow> False))"

text \<open>The rowid of a new row: one more than the largest rowid in the table.\<close>

definition next_rowid :: "entity_row list \<Rightarrow> nat" where
  "next_rowid rows = Suc (fold max (map row_id rows) 0)"

text \<open>
  \<^verbatim>\<open>INSERT OR IGNORE INTO entities (type, name, domain) VALUES (?, ?, ?)\<close>: the new table,
  \<^verbatim>\<open>cursor.rowcount\<close> and \<^verbatim>\<open>cursor.lastrowid\<close>.
\<close>

definition insert_or_ignore ::
  "entity_row list \<Rightarrow> string \<Rightarrow> string \<Rightarrow> string option \<Rightarrow> entity_row list \<times> nat \<times> nat option" where
  "insert_or_ignore rows t n d =
     (if \<exists>r\<in>set rows. unique_clash r t n d then (rows, 0, None)
      else (rows @ [\<lparr>row_id = next_rowid rows, entity_type = t, entity_name = n,
                      entity_domain = d\<rparr>], 1, Some (next_rowid rows)))"

text \<open>
  \<^verbatim>\<open>_get_or_create_entity\<close>: the insert, and when no row was inserted one of three
  \<^verbatim>\<open>SELECT id FROM entities WHERE ...\<close> with \<^verbatim>\<open>fetchone()\<close>. A raised exception rolls the
  transaction back.
\<close>

definition get_or_create_entity :: "osint_db \<Rightarrow> string \<Rightarrow> string \<Rightarrow> (db_error + nat) \<times> osint_db" where
  "get_or_create_entity db identifier etype =
     (let db_entity_type = (if etype = ''domain'' then ''company'' else ''person'');
          domain_value = (if etype = ''domain'' then Some identifier else None)
      in if \<not> connectable db then (Inl ConnectionError, db)
         else (case insert_or_ignore (entities db) db_entity_type identifier domain_value of
           (rows, rowcount, lastrowid) \<Rightarrow>
             if rowcount > 0 then
               (case lastrowid of
                  None \<Rightarrow> (Inl (ValueError ''Failed to get lastrowid for new entity''), db)
                | Some new_id \<Rightarrow> (Inr new_id, db\<lparr>entities := rows\<rparr>))
             else
               (let result =
                  (if db_entity_type = ''company'' \<and> domain_value \<noteq> None \<and> domain_value \<noteq> Some [] then
                     find (\<lambda>r. entity_name r = identifier \<and> entity_type r = db_entity_type
                                \<and> entity_domain r = domain_value) rows
                   else if db_entity_type = ''person'' \<and> domain_value = None then
                     find (\<lambda>r. entity_name r = identifier \<and> entity_type r = db_entity_type
                                \<and> entity_domain r = None) rows
                   else
                     find (\<lambda>r. entity_name r = identifier \<and> entity_type r = db_entity_type) rows)
                in case result of
                     None \<Rightarrow> (Inl (ValueError ''Entity exists but its ID could not be retrieved''), db)
                   | Some r \<Rightarrow> (Inr (row_id r), db\<lparr>entities := rows\<rparr>))))"






definition empty_db :: osint_db where
  "empty_db = \<lparr>connectable = True, entities = [], osint_profiles = []\<rparr>"




section \<open>Contact extraction and filtering (scraper/utils/extractors.py)\<close>

subsection \<open>Characters\<close>

text \<open>
  Texts are strings of 8-bit characters, read as ASCII: \<^verbatim>\<open>str.isdigit\<close> and the class
  \<^verbatim>\<open>\d\<close> are the ten decimal digits, \<^verbatim>\<open>\w\<close> is letters, digits and the underscore, and
  \<^verbatim>\<open>str.lower\<close> maps \<^verbatim>\<open>A-Z\<close> to \<^verbatim>\<open>a-z\<close>.
\<close>

definition digits :: string where "digits = ''0123456789''"

definition isdigit :: "char \<Rightarrow> bool" where
  "isdigit c = (c \<in> set digits)"




subsection \<open>Regular expressions as Python's \<^verbatim>\<open>re\<close> matches them\<close>














fun split :: "char \<Rightarrow> string \<Rightarrow> string list" where
  "split sep [] = [[]]"
| "split sep (c # cs) =
     (if c = sep then [] # split sep cs
      else (c # hd (split sep cs)) # tl (split sep cs))"



subsection \<open>\<^verbatim>\<open>extract_emails\<close>\<close>









subsection \<open>\<^verbatim>\<open>filter_phone_numbers\<close>\<close>







text \<open>The cleaned form of a number: an optional leading plus sign and the digits.\<close>

definition cleaned_of :: "string \<Rightarrow> string" where
  "cleaned_of phone =
     (if prefix ''++'' phone then CHR ''+'' # filter isdigit (drop 2 phone)
      else if prefix ''+'' phone then CHR ''+'' # filter isdigit (drop 1 phone)
      else filter isdigit phone)"





subsection \<open>Shapes of texts, in words\<close>


text \<open>
  The shapes that the claims about the filters name. A bare run of six or eight digits
  (the forms \<^verbatim>\<open>YYYYMMDD\<close> and \<^verbatim>\<open>DDMMYYYY\<close> are runs of eight digits); four groups of one
  to three digits separated by dots; a run of at least six digits in which each digit is
  followed by its successor; ten digits of which the first is 1 or 2 (as a number of
  seconds, a time between 2001 and 2065).
\<close>

definition all_digits :: "string \<Rightarrow> bool" where
  "all_digits s = list_all isdigit s"













section \<open>Host-intelligence adapter (scraper/utils/clients.py, fetch_shodan)\<close>

text \<open>
  The answer of \<^verbatim>\<open>api.host(ip)\<close> with the keys that \<^verbatim>\<open>fetch_shodan\<close> reads; the whole
  answer is what is stored per address.
\<close>

record host_info =
  ip_str :: string
  ports :: "int list"
  hostnames :: "string list"
  org :: "string option"
  isp :: "string option"
  vulns :: "string list"

text \<open>
  What a call into the Shodan library can raise: \<^verbatim>\<open>shodan.APIError\<close> (its \<^verbatim>\<open>value\<close> is
  also its text) or any other exception (with its text).
\<close>

datatype shodan_exn = APIError string | Unexpected string

text \<open>An entry of \<^verbatim>\<open>data_by_ip\<close>: the host's data, or the error mapping of the address.\<close>

datatype ip_entry =
    HostData host_info
  | ErrorEntry string "string option"  \<comment> \<open>\<^verbatim>\<open>error\<close> and \<^verbatim>\<open>status_code\<close>\<close>

text \<open>The summary while the loop runs (Python sets) and as returned (sorted lists).\<close>

record summary_sets =
  ports_set :: "int set"
  hostnames_set :: "string set"
  organizations_set :: "string set"
  isps_set :: "string set"
  vulnerabilities_set :: "string set"

record summary =
  summary_ports :: "int list"
  summary_hostnames :: "string list"
  summary_organizations :: "string list"
  summary_isps :: "string list"
  summary_vulnerabilities :: "string list"

record shodan_results =
  ips_queried :: "string list"
  data_by_ip :: "string \<rightharpoonup> ip_entry"
  summary_of :: summary

datatype shodan_payload =
    ErrorPayload string                \<comment> \<open>\<^verbatim>\<open>{"error": ...}\<close>\<close>
  | InfoPayload string                 \<comment> \<open>\<^verbatim>\<open>{"info": ..., "data_by_ip": {}, "summary": {}}\<close>\<close>
  | ResultsPayload shodan_results

text \<open>A value of an optional text key that Python takes as true: present and not empty.\<close>

definition truthy :: "string option \<Rightarrow> string set" where
  "truthy v = (case v of None \<Rightarrow> {} | Some s \<Rightarrow> (if s = [] then {} else {s}))"

text \<open>The body of the inner \<^verbatim>\<open>try\<close> for an address whose query answered.\<close>

definition merge_host ::
  "string \<Rightarrow> host_info \<Rightarrow> (string \<rightharpoonup> ip_entry) \<times> summary_sets
     \<Rightarrow> (string \<rightharpoonup> ip_entry) \<times> summary_sets" where
  "merge_host ip h acc =
     (case acc of (d, s) \<Rightarrow>
        (d(ip \<mapsto> HostData h),
         s\<lparr>ports_set := ports_set s \<union> set (ports h),
           hostnames_set := hostnames_set s \<union> set (hostnames h),
           organizations_set := organizations_set s \<union> truthy (org h),
           isps_set := isps_set s \<union> truthy (isp h),
           vulnerabilities_set := vulnerabilities_set s \<union> set (vulns h)\<rparr>))"

text \<open>The entry recorded for an address, by the outcome of its query.\<close>

fun entry_of :: "shodan_exn + host_info \<Rightarrow> ip_entry" where
  "entry_of (Inr h) = HostData h"
| "entry_of (Inl (APIError v)) = ErrorEntry v (Some v)"
| "entry_of (Inl (Unexpected m)) = ErrorEntry (''Unexpected error: '' @ m) None"

text \<open>
  The \<^verbatim>\<open>for ip in ip_addresses\<close> loop; \<open>host i ip\<close> is the outcome of the \<open>i\<close>-th call of
  \<^verbatim>\<open>api.host\<close>. Both \<^verbatim>\<open>except\<close> clauses of the inner \<^verbatim>\<open>try\<close> record the error under the
  address and let the loop go on.
\<close>

fun shodan_loop ::
  "(nat \<Rightarrow> string \<Rightarrow> shodan_exn + host_info) \<Rightarrow> nat \<Rightarrow> string list
     \<Rightarrow> (string \<rightharpoonup> ip_entry) \<times> summary_sets \<Rightarrow> (string \<rightharpoonup> ip_entry) \<times> summary_sets" where
  "shodan_loop host i [] acc = acc"
| "shodan_loop host i (ip # rest) acc =
     shodan_loop host (Suc i) rest
       (case host i ip of
          Inr h \<Rightarrow> merge_host ip h acc
        | Inl x \<Rightarrow> (case acc of (d, s) \<Rightarrow> (d(ip \<mapsto> entry_of (Inl x)), s)))"

definition empty_summary :: summary_sets where
  "empty_summary = \<lparr>ports_set = {}, hostnames_set = {}, organizations_set = {},
                     isps_set = {}, vulnerabilities_set = {}\<rparr>"

text \<open>The sets turned into sorted lists, as \<^verbatim>\<open>sorted(list(...))\<close> does.\<close>

definition sorted_summary :: "summary_sets \<Rightarrow> summary" where
  "sorted_summary s =
     \<lparr>summary_ports = sorted_list_of_set (ports_set s),
      summary_hostnames = sorted_list_of_set (hostnames_set s),
      summary_organizations = sorted_list_of_set (organizations_set s),
      summary_isps = sorted_list_of_set (isps_set s),
      summary_vulnerabilities = sorted_list_of_set (vulnerabilities_set s)\<rparr>"

text \<open>
  \<^verbatim>\<open>fetch_shodan\<close>. \<open>Shodan_init\<close> is the constructor \<^verbatim>\<open>shodan.Shodan(api_key)\<close>, which
  may raise (\<open>Some\<close>) inside the outer \<^verbatim>\<open>try\<close>.
\<close>

definition fetch_shodan ::
  "(string \<Rightarrow> shodan_exn option) \<Rightarrow> (nat \<Rightarrow> string \<Rightarrow> shodan_exn + host_info)
     \<Rightarrow> string list \<Rightarrow> string option \<Rightarrow> shodan_payload" where
  "fetch_shodan Shodan_init host ip_addresses api_key =
     (case api_key of
        None \<Rightarrow> ErrorPayload ''API key for Shodan not provided''
      | Some k \<Rightarrow>
          if k = [] then ErrorPayload ''API key for Shodan not provided''
          else if ip_addresses = [] then InfoPayload ''No IP addresses provided''
          else (case Shodan_init k of
                  Some (APIError v) \<Rightarrow> ErrorPayload (''Shodan API error: '' @ v)
                | Some (Unexpected m) \<Rightarrow> ErrorPayload (''Unexpected Shodan client error: '' @ m)
                | None \<Rightarrow>
                    (case shodan_loop host 0 ip_addresses (Map.empty, empty_summary) of
                       (d, s) \<Rightarrow>
                         ResultsPayload \<lparr>ips_queried = ip_addresses, data_by_ip = d,
                                         summary_of = sorted_summary s\<rparr>)))"

text \<open>The spec's example: the first address answers, the second one's query fails.\<close>

definition host_1234 :: host_info where
  "host_1234 = \<lparr>ip_str = ''1.2.3.4'', ports = [443, 80], hostnames = [''a.example''],
                 org = Some ''Acme'', isp = Some ''ISP'', vulns = [''CVE-2020-0001'']\<rparr>"

definition example_host :: "nat \<Rightarrow> string \<Rightarrow> shodan_exn + host_info" where
  "example_host i ip =
     (if ip = ''1.2.3.4'' then Inr host_1234 else Inl (APIError ''Invalid IP''))"

definition no_init_error :: "string \<Rightarrow> shodan_exn option" where
  "no_init_error k = None"

text \<open>
  The answers of the addresses whose query succeeded, in list order (used to state what the
  summary holds).
\<close>

fun answered :: "(nat \<Rightarrow> string \<Rightarrow> shodan_exn + host_info) \<Rightarrow> nat \<Rightarrow> string list \<Rightarrow> host_info list" where
  "answered host i [] = []"
| "answered host i (ip # rest) =
     (case host i ip of Inr h \<Rightarrow> [h] | Inl x \<Rightarrow> []) @ answered host (Suc i) rest"

section \<open>Properties of the robots compliance analyzer\<close>

lemma find_sorted_desc_max:
  assumes "find P (rev (sort_key f (rev xs))) = Some w"
  shows "w \<in> set xs \<and> P w \<and> (\<forall>y\<in>set xs. P y \<longrightarrow> f y \<le> (f w :: nat))"
proof -
  let ?ys = "rev (sort_key f (rev xs))"
  from assms obtain i where i: "i < length ?ys" "P (?ys ! i)" "w = ?ys ! i"
    "\<forall>j<i. \<not> P (?ys ! j)"
    by (auto simp: find_Some_iff)
  have set_eq: "set ?ys = set xs" by simp
  have w_in: "w \<in> set xs" using i(1,3) set_eq nth_mem by metis
  have desc: "sorted (rev (map f ?ys))"
    by (simp add: rev_map [symmetric])
  have ge: "f (?ys ! k) \<le> f (?ys ! i)" if "i \<le> k" "k < length ?ys" for k
  proof -
    have "sorted_wrt (\<lambda>a b. b \<le> a) (map f ?ys)"
      using desc by (simp add: sorted_wrt_rev)
    then show ?thesis
      using that i(1) by (cases "i = k") (auto simp: sorted_wrt_iff_nth_less)
  qed
  have "f y \<le> f w" if "y \<in> set xs" "P y" for y
  proof -
    from that(1) set_eq obtain k where k: "k < length ?ys" "y = ?ys ! k"
      by (metis in_set_conv_nth)
    with that(2) i(4) have "i \<le> k" by (metis not_le_imp_less)
    then show ?thesis using ge k i(3) by simp
  qed
  with w_in i(2,3) show ?thesis by blast
qed

lemma find_sorted_desc_none:
  "find P (rev (sort_key f (rev xs))) = None \<longleftrightarrow> (\<forall>y\<in>set xs. \<not> P y)"
  by (auto simp: find_None_iff)

lemma find_refine_key:
  "find P ys = Some w \<Longrightarrow> find (\<lambda>y. P y \<and> f y = f w) ys = Some w"
  by (induction ys) (auto split: if_splits)

lemma find_conj_filter:
  "find (\<lambda>y. P y \<and> Q y) zs = find P (filter Q zs)"
  by (induction zs) auto

lemma filter_key_sorted_desc:
  "filter (\<lambda>y. f y = k) (rev (sort_key f (rev xs))) = filter (\<lambda>y. f y = k) xs"
  by (simp add: rev_filter [symmetric] sort_key_stable)

lemma find_sorted_desc_first:
  assumes "find P (rev (sort_key f (rev xs))) = Some w"
  shows "find (\<lambda>y. P y \<and> f y = f w) xs = Some w"
proof -
  have "find (\<lambda>y. P y \<and> f y = f w) (rev (sort_key f (rev xs))) = Some w"
    using assms by (rule find_refine_key)
  then show ?thesis
    by (simp add: find_conj_filter filter_key_sorted_desc)
qed

text \<open>
  C7. For every URL and rule list, \<open>is_allowed\<close> answers with the allow flag of a rule
  whose path is a prefix of the request path and is at least as long as every other
  matching rule's path (among rules with that same longest path, the first in file
  order); when no rule's path is a prefix of the request path the answer is allow.
\<close>

theorem is_allowed_longest_match:
  "(if \<exists>r\<in>set rules. prefix (path r) (request_path up u)
    then \<exists>w\<in>set rules.
           prefix (path w) (request_path up u) \<and>
           (\<forall>r\<in>set rules. prefix (path r) (request_path up u)
              \<longrightarrow> length (path r) \<le> length (path w)) \<and>
           find (\<lambda>r. prefix (path r) (request_path up u) \<and>
                      length (path r) = length (path w)) rules = Some w \<and>
           is_allowed up u rules = allow w
    else is_allowed up u rules = True)"
proof (cases "find (\<lambda>rule. prefix (path rule) (request_path up u)) (sorted_rules rules)")
  case None
  then have "\<forall>y\<in>set rules. \<not> prefix (path y) (request_path up u)"
    unfolding sorted_rules_def by (simp only: find_sorted_desc_none)
  with None show ?thesis by (simp add: is_allowed_def)
next
  case (Some w)
  note m = find_sorted_desc_max [OF Some [unfolded sorted_rules_def]]
  note f = find_sorted_desc_first [OF Some [unfolded sorted_rules_def]]
  have "is_allowed up u rules = allow w"
    using Some by (simp add: is_allowed_def)
  with m f show ?thesis by auto
qed

theorem is_allowed_longest_match_witness:
  "is_allowed (\<lambda>u. ''/admin/public/x'') ''http://h/admin/public/x''
     [\<lparr>path = ''/admin'', allow = False, is_sensitive = True\<rparr>,
      \<lparr>path = ''/admin/public'', allow = True, is_sensitive = True\<rparr>] = True
   \<and> is_allowed (\<lambda>u. ''/admin/secret'') ''http://h/admin/secret''
     [\<lparr>path = ''/admin'', allow = False, is_sensitive = True\<rparr>,
      \<lparr>path = ''/admin/public'', allow = True, is_sensitive = True\<rparr>] = False
   \<and> is_allowed (\<lambda>u. '''') ''http://h''
     [\<lparr>path = ''/admin'', allow = False, is_sensitive = True\<rparr>] = True"
  using is_allowed_longest_match [of
      "[\<lparr>path = ''/admin'', allow = False, is_sensitive = True\<rparr>,
        \<lparr>path = ''/admin/public'', allow = True, is_sensitive = True\<rparr>]"
      "\<lambda>u. ''/admin/public/x''" "''http://h/admin/public/x''"]
    is_allowed_longest_match [of
      "[\<lparr>path = ''/admin'', allow = False, is_sensitive = True\<rparr>,
        \<lparr>path = ''/admin/public'', allow = True, is_sensitive = True\<rparr>]"
      "\<lambda>u. ''/admin/secret''" "''http://h/admin/secret''"]
    is_allowed_longest_match [of
      "[\<lparr>path = ''/admin'', allow = False, is_sensitive = True\<rparr>]"
      "\<lambda>u. ''''" "''http://h''"]
  by (auto simp: request_path_def)

section \<open>Properties of the fetch layer\<close>

subsection \<open>The rounds of the retry loop\<close>

lemma attempt_loop_done:
  "\<not> attempt < retries \<Longrightarrow> attempt_loop e u retries attempt w = (Inr None, w)"
  by (subst attempt_loop.simps) simp

lemma attempt_loop_response:
  "attempt < retries \<Longrightarrow> safe_get e (length (requests w)) u = (latency, Inr r) \<Longrightarrow>
   attempt_loop e u retries attempt w =
     (Inr (Some \<lparr>status_code = resp_status_code r, content = resp_content r,
                  headers = resp_headers r, url = resp_url r,
                  encoding = apparent_encoding r\<rparr>), issue u latency w)"
  by (subst attempt_loop.simps) simp

lemma attempt_loop_other:
  "attempt < retries \<Longrightarrow>
   safe_get e (length (requests w)) u = (latency, Inl (OtherException m)) \<Longrightarrow>
   attempt_loop e u retries attempt w = (Inl (OtherException m), issue u latency w)"
  by (subst attempt_loop.simps) simp

lemma attempt_loop_retry:
  "attempt + 1 < retries \<Longrightarrow>
   safe_get e (length (requests w)) u = (latency, Inl (RequestException m)) \<Longrightarrow>
   attempt_loop e u retries attempt w =
     attempt_loop e u retries (attempt + 1)
       (sleep e (uniform_2_5 e (draws w) * real_of_int (attempt + 1))
          ((issue u latency w)\<lparr>draws := Suc (draws w)\<rparr>))"
  by (subst attempt_loop.simps) (simp add: issue_def)

lemma attempt_loop_last:
  "attempt < retries \<Longrightarrow> \<not> attempt + 1 < retries \<Longrightarrow>
   safe_get e (length (requests w)) u = (latency, Inl (RequestException m)) \<Longrightarrow>
   attempt_loop e u retries attempt w = (Inr None, issue u latency w)"
  by (subst attempt_loop.simps) (simp add: attempt_loop_done)

lemma attempt_loop_files:
  "files (snd (attempt_loop e u retries attempt w)) = files w"
proof (induction e u retries attempt w rule: attempt_loop.induct)
  case (1 e u retries attempt w)
  show ?case
    apply (subst attempt_loop.simps)
    using 1
    by (auto simp: sleep_def issue_def Let_def split: prod.splits sum.splits exn.splits)
qed

lemma backoffs_Suc:
  "backoffs e d attempt (Suc k) =
     (uniform_2_5 e d * real_of_int (attempt + 1)) # backoffs e (Suc d) (attempt + 1) k"
  by (simp add: backoffs_def upt_conv_Cons map_Suc_upt [symmetric] add.commute add.left_commute
           del: upt_Suc)

lemma attempt_loop_retries:
  assumes "\<forall>n latency x. safe_get e n u = (latency, Inl x) \<longrightarrow> (\<exists>m. x = RequestException m)"
  shows "\<exists>r k. fst (attempt_loop e u retries attempt w) = Inr r
           \<and> length (requests (snd (attempt_loop e u retries attempt w))) = length (requests w) + k
           \<and> k \<le> nat (retries - attempt)
           \<and> (attempt < retries \<longrightarrow> 1 \<le> k)
           \<and> (r = None \<longrightarrow> k = nat (retries - attempt))
           \<and> sleeps (snd (attempt_loop e u retries attempt w)) = sleeps w @ backoffs e (draws w) attempt (k - 1)"
  using assms
proof (induction e u retries attempt w rule: attempt_loop.induct)
  case (1 e u retries attempt w)
  show ?case
  proof (cases "attempt < retries")
    case False
    then show ?thesis by (simp add: attempt_loop_done backoffs_def)
  next
    case True
    obtain latency outcome where sg: "safe_get e (length (requests w)) u = (latency, outcome)"
      by (cases "safe_get e (length (requests w)) u")
    show ?thesis
    proof (cases outcome)
      case (Inr r)
      have "attempt_loop e u retries attempt w =
          (Inr (Some \<lparr>status_code = resp_status_code r, content = resp_content r,
                  headers = resp_headers r, url = resp_url r,
                  encoding = apparent_encoding r\<rparr>), issue u latency w)"
        using True sg Inr by (simp add: attempt_loop_response)
      then show ?thesis
        using True
        by (intro exI [of _ "Some \<lparr>status_code = resp_status_code r, content = resp_content r,
                  headers = resp_headers r, url = resp_url r,
                  encoding = apparent_encoding r\<rparr>"] exI [of _ "Suc 0"])
           (simp add: issue_def backoffs_def)
    next
      case (Inl x)
      then obtain m where x: "x = RequestException m" using "1.prems" sg by blast
      show ?thesis
      proof (cases "attempt + 1 < retries")
        case False
        have "nat (retries - attempt) = Suc 0" using True False by simp
        moreover have "attempt_loop e u retries attempt w = (Inr None, issue u latency w)"
          using True False sg Inl x by (simp add: attempt_loop_last)
        ultimately show ?thesis
          by (intro exI [of _ None] exI [of _ "Suc 0"]) (simp add: issue_def backoffs_def)
      next
        case more: True
        let ?w2 = "sleep e (uniform_2_5 e (draws w) * real_of_int (attempt + 1))
                     ((issue u latency w)\<lparr>draws := Suc (draws w)\<rparr>)"
        have eq: "attempt_loop e u retries attempt w = attempt_loop e u retries (attempt + 1) ?w2"
          using more sg Inl x by (simp add: attempt_loop_retry)
        from "1.IH"(1) [OF True sg [symmetric] refl Inl x more] "1.prems" more
        obtain r k where ih:
          "fst (attempt_loop e u retries (attempt + 1) ?w2) = Inr r"
          "length (requests (snd (attempt_loop e u retries (attempt + 1) ?w2))) = length (requests ?w2) + k"
          "k \<le> nat (retries - (attempt + 1))"
          "1 \<le> k"
          "r = None \<longrightarrow> k = nat (retries - (attempt + 1))"
          "sleeps (snd (attempt_loop e u retries (attempt + 1) ?w2)) = sleeps ?w2 @ backoffs e (draws ?w2) (attempt + 1) (k - 1)"
          by (auto simp: issue_def)
        have w2: "requests ?w2 = requests w @ [(clock w, u)]" "draws ?w2 = Suc (draws w)"
          "sleeps ?w2 = sleeps w @ [uniform_2_5 e (draws w) * real_of_int (attempt + 1)]"
          by (simp_all add: sleep_def issue_def)
        have k: "k = Suc (k - 1)" using ih(4) by simp
        have bs: "backoffs e (draws w) attempt k =
            (uniform_2_5 e (draws w) * real_of_int (attempt + 1)) # backoffs e (Suc (draws w)) (attempt + 1) (k - 1)"
          by (subst k) (rule backoffs_Suc)
        have n: "nat (retries - attempt) = Suc (nat (retries - (attempt + 1)))"
          using more by simp
        show ?thesis
          using ih w2 n bs True
          by (intro exI [of _ r] exI [of _ "Suc k"]) (simp add: eq)
      qed
    qed
  qed
qed

lemma attempt_loop_all_fail:
  assumes "\<forall>n. \<exists>latency m. safe_get e n u = (latency, Inl (RequestException m))"
  shows "fst (attempt_loop e u retries attempt w) = Inr None"
  using assms
proof (induction e u retries attempt w rule: attempt_loop.induct)
  case (1 e u retries attempt w)
  show ?case
  proof (cases "attempt < retries")
    case False
    then show ?thesis by (simp add: attempt_loop_done)
  next
    case True
    from "1.prems" obtain latency m where
      sg: "safe_get e (length (requests w)) u = (latency, Inl (RequestException m))" by blast
    show ?thesis
    proof (cases "attempt + 1 < retries")
      case False
      then show ?thesis using True sg by (simp add: attempt_loop_last)
    next
      case more: True
      show ?thesis
        using "1.IH"(1) [OF True sg [symmetric] refl refl refl more] "1.prems" more sg
        by (simp add: attempt_loop_retry issue_def)
    qed
  qed
qed

lemma attempt_loop_requests:
  assumes lat: "\<forall>n v. 0 \<le> fst (safe_get e n v)"
      and drw: "\<forall>n. 0 \<le> uniform_2_5 e n"
      and ovs: "\<forall>n. 0 \<le> oversleep e n"
  shows "0 \<le> attempt \<Longrightarrow>
         \<exists>new. requests (snd (attempt_loop e u retries attempt w)) = requests w @ new
             \<and> (\<forall>(t, v)\<in>set new. clock w \<le> t \<and> v = u)
             \<and> (attempt < retries \<longrightarrow> new \<noteq> [] \<and> fst (hd new) = clock w)"
  using assms
proof (induction e u retries attempt w rule: attempt_loop.induct)
  case (1 e u retries attempt w)
  show ?case
  proof (cases "attempt < retries")
    case False
    then show ?thesis by (simp add: attempt_loop_done)
  next
    case True
    obtain latency outcome where sg: "safe_get e (length (requests w)) u = (latency, outcome)"
      by (cases "safe_get e (length (requests w)) u")
    have l0: "0 \<le> latency" using "1.prems"(2) sg by (metis fst_conv)
    show ?thesis
    proof (cases outcome)
      case (Inr r)
      show ?thesis
        using True sg Inr by (simp add: attempt_loop_response issue_def)
    next
      case (Inl x)
      show ?thesis
      proof (cases x)
        case (OtherException m)
        show ?thesis
          using True sg Inl OtherException by (simp add: attempt_loop_other issue_def)
      next
        case (RequestException m)
        show ?thesis
        proof (cases "attempt + 1 < retries")
          case False
          show ?thesis
            using True False sg Inl RequestException by (simp add: attempt_loop_last issue_def)
        next
          case more: True
          let ?w2 = "sleep e (uniform_2_5 e (draws w) * real_of_int (attempt + 1))
                       ((issue u latency w)\<lparr>draws := Suc (draws w)\<rparr>)"
          have eq: "attempt_loop e u retries attempt w = attempt_loop e u retries (attempt + 1) ?w2"
            using more sg Inl RequestException by (simp add: attempt_loop_retry)
          have ih: "\<exists>new. requests (snd (attempt_loop e u retries (attempt + 1) ?w2)) = requests ?w2 @ new
             \<and> (\<forall>(t, v)\<in>set new. clock ?w2 \<le> t \<and> v = u)"
            using "1.IH"(1) [OF True sg [symmetric] refl Inl RequestException more]
              "1.prems" by (auto simp: issue_def)
          have c2: "clock w \<le> clock ?w2"
          proof -
            have "0 \<le> uniform_2_5 e (draws w) * real_of_int (attempt + 1)"
              using "1.prems"(1,3) by simp
            moreover have "0 \<le> oversleep e (length (sleeps w))" using "1.prems"(4) by simp
            ultimately show ?thesis using l0 by (simp add: sleep_def issue_def)
          qed
          have r2: "requests ?w2 = requests w @ [(clock w, u)]"
            by (simp add: sleep_def issue_def)
          from ih obtain new where new:
            "requests (snd (attempt_loop e u retries (attempt + 1) ?w2)) = requests ?w2 @ new"
            "\<forall>(t, v)\<in>set new. clock ?w2 \<le> t \<and> v = u" by blast
          have "requests (snd (attempt_loop e u retries attempt w)) = requests w @ ((clock w, u) # new)"
            using eq new(1) r2 by simp
          moreover have "\<forall>(t, v)\<in>set ((clock w, u) # new). clock w \<le> t \<and> v = u"
            using new(2) c2 by auto
          ultimately show ?thesis
            by (intro exI [of _ "(clock w, u) # new"]) simp
        qed
      qed
    qed
  qed
qed

subsection \<open>Politeness\<close>

lemma respect_politeness_requests:
  "requests (snd (respect_politeness e f w)) = requests w"
  by (simp add: respect_politeness_def sleep_def Let_def)

lemma respect_politeness_files:
  "files (snd (respect_politeness e f w)) = files w"
  by (simp add: respect_politeness_def sleep_def Let_def)

lemma respect_politeness_stamp:
  "last_request_time (fst (respect_politeness e f w)) = clock (snd (respect_politeness e f w))"
  by (simp add: respect_politeness_def Let_def)

lemma respect_politeness_delay_range:
  "delay_range (fst (respect_politeness e f w)) = delay_range f"
  by (simp add: respect_politeness_def Let_def)

lemma respect_politeness_waits:
  assumes "0 \<le> oversleep e (length (sleeps w))"
  shows "last_request_time f + fst (delay_range f) \<le> clock (snd (respect_politeness e f w))"
  using assms by (simp add: respect_politeness_def sleep_def Let_def)



subsection \<open>The two accessors\<close>

lemma fetch_state:
  "snd (fetch e f w u force_download timeout retries) =
   snd (fetch_full_response e f w u force_download timeout retries)"
  by (auto simp: fetch_def split: prod.splits sum.splits option.splits)

lemma fetch_full_response_files:
  "files (snd (snd (fetch_full_response e f w u force_download timeout retries))) = files w"
  using attempt_loop_files [of e u retries 0 "snd (respect_politeness e f w)"]
    respect_politeness_files [of e f w]
  by (auto simp: fetch_full_response_def split: prod.splits)

text \<open>No call of either accessor reads or writes the cache directory.\<close>

lemma fetch_files:
  "files (snd (snd (fetch e f w u force_download timeout retries))) = files w"
  using fetch_full_response_files [of e f w u force_download timeout retries]
    fetch_state [of e f w u force_download timeout retries]
  by simp

text \<open>
  C1. The claim: for a URL already in the disk cache, \<open>fetch\<close> with
  \<open>force_download = False\<close> returns the cached text without a network request, and
  every successful download is written to the cache. The code does neither:
  \<open>fetch\<close> never calls \<open>check_cache\<close> or \<open>save_to_cache\<close>. With the cache enabled and
  holding \<^verbatim>\<open>cached\<close> for the URL, \<open>fetch\<close> issues a request, returns the text \<^verbatim>\<open>live\<close>
  that the server sent, and leaves the cache file as it was.
\<close>

theorem fetch_cached_url_hits_network:
  "check_cache env_live (WebFetcher_init (Some ''.osint_cache'')) cached_world ''http://a''
     = Some ''cached''
   \<and> fetch env_live (WebFetcher_init (Some ''.osint_cache'')) cached_world ''http://a'' False 30 3
     = (Inr (Some ''live''),
        (WebFetcher_init (Some ''.osint_cache''))\<lparr>last_request_time := 10\<rparr>,
        cached_world\<lparr>requests := [(10, ''http://a'')], clock := 10 + 1 / 2\<rparr>)"
  by (simp add: check_cache_def get_cache_path_def env_live_def WebFetcher_init_def
      cached_world_def fetch_def fetch_full_response_def respect_politeness_def
      attempt_loop.simps [of _ _ 3 0] issue_def live_response_def Let_def)

text \<open>
  C4, as stated, fails: an exception of the HTTP helper that is not a
  \<^verbatim>\<open>requests.RequestException\<close> is not caught by the retry loop and reaches the caller
  at the first attempt.
\<close>

theorem fetch_full_response_other_exception_raises:
  "fst (fetch_full_response env_crash (WebFetcher_init None) world0 ''http://a'' False 30 3)
     = Inl (OtherException ''ValueError'')"
  by (simp add: env_crash_def WebFetcher_init_def world0_def fetch_full_response_def
      respect_politeness_def attempt_loop.simps [of _ _ 3 0] issue_def Let_def)

text \<open>
  C4 (amended). When every failing attempt fails with a \<^verbatim>\<open>requests.RequestException\<close>
  (network and timeout failures are of this kind), \<open>fetch_full_response\<close> does not raise:
  it issues at most \<open>retries\<close> requests; it returns \<open>None\<close> only after \<open>retries\<close>
  requests, and does so whenever every attempt fails; between consecutive attempts it
  sleeps \<^verbatim>\<open>random.uniform(2, 5)\<close> times the number of attempts made so far, which for
  draws in \<open>[2, 5]\<close> lies between \<open>2 * i\<close> and \<open>5 * i\<close> seconds after the \<open>i\<close>-th attempt.
\<close>

theorem fetch_full_response_retries:
  assumes "\<forall>n latency x. safe_get e n u = (latency, Inl x) \<longrightarrow> (\<exists>m. x = RequestException m)"
      and "\<forall>n. 2 \<le> uniform_2_5 e n \<and> uniform_2_5 e n \<le> 5"
  shows "case fetch_full_response e f w u force_download timeout retries of (res, f', w') \<Rightarrow>
           \<exists>r k. res = Inr r
             \<and> length (requests w') = length (requests w) + k
             \<and> k \<le> nat retries
             \<and> (r = None \<longrightarrow> k = nat retries)
             \<and> ((\<forall>n. \<exists>latency m. safe_get e n u = (latency, Inl (RequestException m)))
                  \<longrightarrow> r = None)
             \<and> (case respect_politeness e f w of (f1, w1) \<Rightarrow>
                  sleeps w' = sleeps w1 @ backoffs e (draws w) 0 (k - 1))
             \<and> (\<forall>i<k - 1. 2 * real (i + 1) \<le> backoffs e (draws w) 0 (k - 1) ! i
                         \<and> backoffs e (draws w) 0 (k - 1) ! i \<le> 5 * real (i + 1))"
proof -
  obtain f1 w1 where rp: "respect_politeness e f w = (f1, w1)"
    by (cases "respect_politeness e f w")
  have d1: "draws w1 = draws w" and r1: "requests w1 = requests w"
    using rp by (auto simp: respect_politeness_def sleep_def Let_def)
  from attempt_loop_retries [OF assms(1), of retries 0 w1]
  obtain r k where rk: "fst (attempt_loop e u retries 0 w1) = Inr r"
    "length (requests (snd (attempt_loop e u retries 0 w1))) = length (requests w1) + k"
    "k \<le> nat (retries - 0)" "r = None \<longrightarrow> k = nat (retries - 0)"
    "sleeps (snd (attempt_loop e u retries 0 w1)) = sleeps w1 @ backoffs e (draws w1) 0 (k - 1)"
    by blast
  have allfail: "r = None"
    if "\<forall>n. \<exists>latency m. safe_get e n u = (latency, Inl (RequestException m))"
    using attempt_loop_all_fail [OF that, of retries 0 w1] rk(1) by simp
  have bounds: "2 * real (i + 1) \<le> backoffs e (draws w) 0 (k - 1) ! i
              \<and> backoffs e (draws w) 0 (k - 1) ! i \<le> 5 * real (i + 1)" if "i < k - 1" for i
  proof -
    have lo: "2 \<le> uniform_2_5 e (draws w + i)" and hi: "uniform_2_5 e (draws w + i) \<le> 5"
      using assms(2) by auto
    have "2 * real (i + 1) \<le> uniform_2_5 e (draws w + i) * real (i + 1)"
      using lo by (intro mult_right_mono) simp_all
    moreover have "uniform_2_5 e (draws w + i) * real (i + 1) \<le> 5 * real (i + 1)"
      using hi by (intro mult_right_mono) simp_all
    ultimately have "2 * real (i + 1) \<le> uniform_2_5 e (draws w + i) * real (i + 1)"
      "uniform_2_5 e (draws w + i) * real (i + 1) \<le> 5 * real (i + 1)" by blast+
    then show ?thesis using that by (simp add: backoffs_def add.commute)
  qed
  obtain res w2 where al: "attempt_loop e u retries 0 w1 = (res, w2)"
    by (cases "attempt_loop e u retries 0 w1")
  have ffr: "fetch_full_response e f w u force_download timeout retries = (res, f1, w2)"
    by (simp add: fetch_full_response_def rp al)
  have "res = Inr r" "length (requests w2) = length (requests w) + k" "k \<le> nat retries"
    "r = None \<longrightarrow> k = nat retries"
    "sleeps w2 = sleeps w1 @ backoffs e (draws w) 0 (k - 1)"
    using rk al d1 r1 by simp_all
  with allfail bounds show ?thesis
    unfolding ffr rp prod.case by blast
qed


theorem fetch_full_response_retries_witness:
  "(\<forall>n. \<exists>latency m. safe_get env_down n ''http://a'' = (latency, Inl (RequestException m)))
   \<and> (\<forall>n. 2 \<le> uniform_2_5 env_down n \<and> uniform_2_5 env_down n \<le> 5)
   \<and> (case fetch_full_response env_down (WebFetcher_init None) world0 ''http://a'' False 30 3 of
        (res, f', w') \<Rightarrow>
          res = Inr None \<and> map fst (requests w') = [10, 43, 79] \<and> sleeps w' = [3, 6])"
proof -
  have h1: "\<forall>n latency x. safe_get env_down n ''http://a'' = (latency, Inl x)
       \<longrightarrow> (\<exists>m. x = RequestException m)"
    by (simp add: env_down_def)
  have h2: "\<forall>n. 2 \<le> uniform_2_5 env_down n \<and> uniform_2_5 env_down n \<le> 5"
    by (simp add: env_down_def)
  show ?thesis
    using h1 h2
      fetch_full_response_retries [OF h1 h2, where f = "WebFetcher_init None" and w = world0
        and force_download = False and timeout = 30 and retries = 3]
    by (simp add: env_down_def WebFetcher_init_def world0_def fetch_full_response_def
        respect_politeness_def attempt_loop.simps issue_def sleep_def Let_def)
qed

text \<open>
  C9. Two sequential calls on one fetcher with the default delay range \<open>(1.0, 3.0)\<close>,
  whatever time passes between them: every request of the second call is issued at least
  1.0 second after \<open>last_request_time\<close> as the first call stamped it, and that stamp is
  the issue time of the first call's first request. Sleeping never ends early
  (\<open>oversleep\<close> is not negative), and requests and backoffs take no negative time.
\<close>

theorem politeness_between_calls:
  assumes "delay_range f = (1.0, 3.0)"
      and "\<forall>n v. 0 \<le> fst (safe_get e n v)"
      and "\<forall>n. 0 \<le> uniform_2_5 e n"
      and "\<forall>n. 0 \<le> oversleep e n"
  shows "case fetch_full_response e f w ua fa ta na of (r1, f1, w1) \<Rightarrow>
         case fetch_full_response e f1 (elapse gap w1) ub fb tb nb of (r2, f2, w2) \<Rightarrow>
           \<exists>first second.
               requests w1 = requests w @ first \<and> requests w2 = requests w1 @ second
             \<and> (0 < na \<longrightarrow> first \<noteq> [] \<and> hd first = (last_request_time f1, ua))
             \<and> (0 < nb \<longrightarrow> second \<noteq> [])
             \<and> (\<forall>(t, v)\<in>set second. last_request_time f1 + 1.0 \<le> t)"
proof -
  obtain f1 wa where rp1: "respect_politeness e f w = (f1, wa)"
    by (cases "respect_politeness e f w")
  obtain r1 w1 where al1: "attempt_loop e ua na 0 wa = (r1, w1)"
    by (cases "attempt_loop e ua na 0 wa")
  obtain f2 wb where rp2: "respect_politeness e f1 (elapse gap w1) = (f2, wb)"
    by (cases "respect_politeness e f1 (elapse gap w1)")
  obtain r2 w2 where al2: "attempt_loop e ub nb 0 wb = (r2, w2)"
    by (cases "attempt_loop e ub nb 0 wb")
  have c1: "fetch_full_response e f w ua fa ta na = (r1, f1, w1)"
    by (simp add: fetch_full_response_def rp1 al1)
  have c2: "fetch_full_response e f1 (elapse gap w1) ub fb tb nb = (r2, f2, w2)"
    by (simp add: fetch_full_response_def rp2 al2)
  have stamp: "last_request_time f1 = clock wa"
    using respect_politeness_stamp [of e f w] rp1 by simp
  have dr: "delay_range f1 = (1.0, 3.0)"
    using respect_politeness_delay_range [of e f w] rp1 assms(1) by simp
  have ra: "requests wa = requests w"
    using respect_politeness_requests [of e f w] rp1 by simp
  have rb: "requests wb = requests w1"
    using respect_politeness_requests [of e f1 "elapse gap w1"] rp2 by (simp add: elapse_def)
  have wait: "last_request_time f1 + 1.0 \<le> clock wb"
    using respect_politeness_waits [of e "elapse gap w1" f1] rp2 dr assms(4) by simp
  from attempt_loop_requests [OF assms(2,3,4), of 0 ua na wa] al1
  obtain first where first: "requests w1 = requests wa @ first"
    "\<forall>(t, v)\<in>set first. clock wa \<le> t \<and> v = ua"
    "0 < na \<longrightarrow> first \<noteq> [] \<and> fst (hd first) = clock wa"
    by auto
  from attempt_loop_requests [OF assms(2,3,4), of 0 ub nb wb] al2
  obtain second where second: "requests w2 = requests wb @ second"
    "\<forall>(t, v)\<in>set second. clock wb \<le> t \<and> v = ub"
    "0 < nb \<longrightarrow> second \<noteq> []"
    by auto
  have hd1: "hd first = (last_request_time f1, ua)" if "0 < na"
  proof -
    from that first(3) have ne: "first \<noteq> []" and t: "fst (hd first) = clock wa" by auto
    from ne have "hd first \<in> set first" by simp
    with first(2) have "snd (hd first) = ua" by (auto simp: case_prod_beta)
    with t stamp show ?thesis by (simp add: prod_eq_iff)
  qed
  have late: "\<forall>(t, v)\<in>set second. last_request_time f1 + 1.0 \<le> t"
    using second(2) wait by fastforce
  have "requests w1 = requests w @ first" using first(1) ra by simp
  moreover have "requests w2 = requests w1 @ second" using second(1) rb by simp
  moreover have "0 < na \<longrightarrow> first \<noteq> [] \<and> hd first = (last_request_time f1, ua)"
    using first(3) hd1 by simp
  ultimately show ?thesis
    unfolding c1 c2 prod.case using second(3) late by blast
qed

theorem politeness_between_calls_witness:
  "delay_range (WebFetcher_init None) = (1.0, 3.0)
   \<and> (\<forall>n v. 0 \<le> fst (safe_get env_live n v))
   \<and> (\<forall>n. 0 \<le> uniform_2_5 env_live n)
   \<and> (\<forall>n. 0 \<le> oversleep env_live n)
   \<and> (case fetch_full_response env_live (WebFetcher_init None) world0 ''http://a'' False 30 3 of
        (r1, f1, w1) \<Rightarrow>
        case fetch_full_response env_live f1 (elapse 0 w1) ''http://a'' False 30 3 of
        (r2, f2, w2) \<Rightarrow>
          last_request_time f1 = 10 \<and> requests w2 = [(10, ''http://a''), (11, ''http://a'')])"
proof -
  have h1: "delay_range (WebFetcher_init None) = (1.0, 3.0)"
    by (simp add: WebFetcher_init_def)
  have h2: "\<forall>n v. 0 \<le> fst (safe_get env_live n v)" by (simp add: env_live_def)
  have h3: "\<forall>n. 0 \<le> uniform_2_5 env_live n" by (simp add: env_live_def)
  have h4: "\<forall>n. 0 \<le> oversleep env_live n" by (simp add: env_live_def)
  show ?thesis
    using h1 h2 h3 h4
      politeness_between_calls [OF h1 h2 h3 h4, where w = world0 and ua = "''http://a''"
        and fa = False and ta = 30 and na = 3 and gap = 0 and ub = "''http://a''"
        and fb = False and tb = 30 and nb = 3]
    by (simp add: env_live_def WebFetcher_init_def world0_def fetch_full_response_def
        respect_politeness_def attempt_loop.simps issue_def sleep_def elapse_def Let_def
        live_response_def)
qed

section \<open>Properties of entity resolution and the profile store\<close>

subsection \<open>Resolve or create\<close>


lemma next_rowid_snoc:
  "next_rowid (rows @ [r]) = Suc (max (row_id r) (fold max (map row_id rows) 0))"
  by (simp add: next_rowid_def)

lemma no_clash_null_domain: "\<not> unique_clash r t n None"
  by (simp add: unique_clash_def split: option.splits)

lemma get_or_create_person:
  assumes "etype \<noteq> ''domain''" and "connectable db"
  shows "get_or_create_entity db identifier etype =
           (Inr (next_rowid (entities db)),
            db\<lparr>entities := entities db @
                  [\<lparr>row_id = next_rowid (entities db), entity_type = ''person'',
                    entity_name = identifier, entity_domain = None\<rparr>]\<rparr>)"
  using assms
  by (simp add: get_or_create_entity_def insert_or_ignore_def no_clash_null_domain Let_def)

text \<open>
  For a kind other than \<^verbatim>\<open>domain\<close>, on any store, two calls in sequence insert two rows
  and return two consecutive ids.
\<close>

lemma get_or_create_person_twice:
  assumes "etype \<noteq> ''domain''" and "connectable db"
  shows "case get_or_create_entity db identifier etype of (first, db1) \<Rightarrow>
         case get_or_create_entity db1 identifier etype of (second, db2) \<Rightarrow>
           first = Inr (next_rowid (entities db))
         \<and> second = Inr (Suc (next_rowid (entities db)))
         \<and> length (entities db2) = length (entities db) + 2"
proof -
  let ?db1 = "db\<lparr>entities := entities db @
                  [\<lparr>row_id = next_rowid (entities db), entity_type = ''person'',
                    entity_name = identifier, entity_domain = None\<rparr>]\<rparr>"
  have c: "connectable ?db1" using assms(2) by simp
  have n: "next_rowid (entities ?db1) = Suc (next_rowid (entities db))"
    by (simp add: next_rowid_snoc) (simp add: next_rowid_def)
  show ?thesis
    unfolding get_or_create_person [OF assms] prod.case
      get_or_create_person [OF assms(1) c] n
    by simp
qed

text \<open>
  C3. The claim: two calls in sequence for the same identifier and kind return the same
  entity id. For the kinds \<^verbatim>\<open>email\<close> and \<^verbatim>\<open>username\<close> the code stores a \<^verbatim>\<open>NULL\<close> domain; the
  uniqueness constraint never fires on such a row, so \<^verbatim>\<open>INSERT OR IGNORE\<close> inserts again
  and the branch that looks the existing person up is never reached. On an empty store,
  the first call for the username \<^verbatim>\<open>alice\<close> returns id 1 and the second returns id 2,
  leaving two rows.
\<close>

theorem get_or_create_entity_username_twice:
  "get_or_create_entity empty_db ''alice'' ''username'' =
     (Inr 1, empty_db\<lparr>entities :=
        [\<lparr>row_id = 1, entity_type = ''person'', entity_name = ''alice'', entity_domain = None\<rparr>]\<rparr>)
   \<and> get_or_create_entity
       (empty_db\<lparr>entities :=
          [\<lparr>row_id = 1, entity_type = ''person'', entity_name = ''alice'', entity_domain = None\<rparr>]\<rparr>)
       ''alice'' ''username'' =
     (Inr 2, empty_db\<lparr>entities :=
        [\<lparr>row_id = 1, entity_type = ''person'', entity_name = ''alice'', entity_domain = None\<rparr>,
         \<lparr>row_id = 2, entity_type = ''person'', entity_name = ''alice'', entity_domain = None\<rparr>]\<rparr>)"
  by (simp add: get_or_create_entity_def insert_or_ignore_def unique_clash_def next_rowid_def
      empty_db_def Let_def)

lemma find_snoc_new:
  "\<forall>r\<in>set rows. \<not> P r \<Longrightarrow> P x \<Longrightarrow> find P (rows @ [x]) = Some x"
  by (induction rows) auto

text \<open>
  For the kind \<^verbatim>\<open>domain\<close> and a non-empty identifier, a second call returns the id of the
  first and leaves the store as the first call left it.
\<close>

lemma get_or_create_domain_twice:
  assumes "identifier \<noteq> []"
      and "get_or_create_entity db identifier ''domain'' = (Inr i, db1)"
  shows "get_or_create_entity db1 identifier ''domain'' = (Inr i, db1)"
proof -
  have conn: "connectable db"
    using assms(2) by (auto simp: get_or_create_entity_def Let_def split: if_splits)
  let ?P = "\<lambda>r. entity_name r = identifier \<and> entity_type r = ''company''
                 \<and> entity_domain r = Some identifier"
  have clash_iff: "unique_clash r ''company'' identifier (Some identifier) \<longleftrightarrow> ?P r" for r
    by (auto simp: unique_clash_def split: option.splits)
  show ?thesis
  proof (cases "\<exists>r\<in>set (entities db). ?P r")
    case True
    then obtain r where r: "find ?P (entities db) = Some r"
      by (cases "find ?P (entities db)") (auto simp: find_None_iff)
    have first: "get_or_create_entity db identifier ''domain'' = (Inr (row_id r), db)"
      using True conn r assms(1)
      by (simp add: get_or_create_entity_def insert_or_ignore_def clash_iff Let_def)
    with assms(2) have "i = row_id r" "db1 = db" by simp_all
    with first show ?thesis by simp
  next
    case False
    let ?new = "\<lparr>row_id = next_rowid (entities db), entity_type = ''company'',
                  entity_name = identifier, entity_domain = Some identifier\<rparr>"
    have first: "get_or_create_entity db identifier ''domain'' =
        (Inr (next_rowid (entities db)), db\<lparr>entities := entities db @ [?new]\<rparr>)"
    proof -
      have nc: "(\<exists>r\<in>set (entities db). unique_clash r ''company'' identifier (Some identifier)) = False"
        using False by (simp only: clash_iff)
      show ?thesis
        using conn by (simp add: get_or_create_entity_def insert_or_ignore_def nc Let_def)
    qed
    with assms(2) have i: "i = next_rowid (entities db)"
      and db1: "db1 = db\<lparr>entities := entities db @ [?new]\<rparr>" by auto
    have f: "find ?P (entities db @ [?new]) = Some ?new"
      using False by (intro find_snoc_new) simp_all
    have yc: "(\<exists>r\<in>set (entities db @ [?new]).
                 unique_clash r ''company'' identifier (Some identifier)) = True"
      by (simp add: clash_iff)
    show ?thesis
      using conn assms(1) f
      by (simp add: db1 i get_or_create_entity_def insert_or_ignore_def clash_iff Let_def)
  qed
qed


subsection \<open>Profile snapshots\<close>














section \<open>Properties of contact extraction and filtering\<close>

subsection \<open>The matcher\<close>










subsection \<open>Shapes that the phone filter rejects\<close>




text \<open>A number written with digits only is its own cleaned form.\<close>

lemma cleaned_of_all_digits: "all_digits s \<Longrightarrow> cleaned_of s = s"
proof -
  assume a: "all_digits s"
  then have f: "filter isdigit s = s" by (simp add: all_digits_def list_all_iff)
  have "\<not> prefix ''+'' s"
  proof
    assume "prefix ''+'' s"
    then obtain r where "s = CHR ''+'' # r" by (auto simp: prefix_def)
    with a show False by (simp add: all_digits_def isdigit_def digits_def)
  qed
  moreover then have "\<not> prefix ''++'' s" by (auto simp: prefix_def)
  ultimately show ?thesis using f by (simp add: cleaned_of_def)
qed


























subsection \<open>The phone filter\<close>
















subsection \<open>The email scan\<close>



































section \<open>Properties of the host-intelligence adapter\<close>


lemma shodan_loop_other_ip:
  "ip \<notin> set ips \<Longrightarrow> fst (shodan_loop host i ips acc) ip = fst acc ip"
  by (induction ips arbitrary: i acc)
     (auto simp: merge_host_def split: sum.splits prod.splits)

lemma shodan_loop_last_occurrence:
  "j < length ips \<Longrightarrow> ips ! j \<notin> set (drop (Suc j) ips) \<Longrightarrow>
   fst (shodan_loop host i ips acc) (ips ! j) = Some (entry_of (host (i + j) (ips ! j)))"
proof (induction ips arbitrary: i acc j)
  case Nil
  then show ?case by simp
next
  case (Cons ip rest)
  show ?case
  proof (cases j)
    case 0
    with Cons.prems have "ip \<notin> set rest" by simp
    then show ?thesis
      using 0 by (auto simp: shodan_loop_other_ip merge_host_def split: sum.splits prod.splits)
  next
    case (Suc j')
    with Cons.prems have "j' < length rest" "rest ! j' \<notin> set (drop (Suc j') rest)" by simp_all
    from Cons.IH [OF this] show ?thesis using Suc by simp
  qed
qed

lemma shodan_loop_dom:
  "dom (fst (shodan_loop host i ips acc)) = dom (fst acc) \<union> set ips"
  by (induction ips arbitrary: i acc)
     (auto simp: merge_host_def split: sum.splits prod.splits)

lemma answered_iff:
  "h \<in> set (answered host i ips) \<longleftrightarrow> (\<exists>j<length ips. host (i + j) (ips ! j) = Inr h)"
proof (induction ips arbitrary: i)
  case Nil
  then show ?case by simp
next
  case (Cons ip rest)
  have "(\<exists>j<length (ip # rest). host (i + j) ((ip # rest) ! j) = Inr h)
        \<longleftrightarrow> host i ip = Inr h \<or> (\<exists>j<length rest. host (Suc i + j) (rest ! j) = Inr h)"
    (is "?L \<longleftrightarrow> ?R")
  proof
    assume ?L
    then obtain j where j: "j < length (ip # rest)" "host (i + j) ((ip # rest) ! j) = Inr h"
      by blast
    show ?R
    proof (cases j)
      case 0
      with j show ?thesis by simp
    next
      case (Suc j')
      with j have "j' < length rest" "host (Suc i + j') (rest ! j') = Inr h" by simp_all
      then show ?thesis by blast
    qed
  next
    assume ?R
    then show ?L
    proof
      assume "host i ip = Inr h"
      then have "0 < length (ip # rest) \<and> host (i + 0) ((ip # rest) ! 0) = Inr h" by simp
      then show ?L by blast
    next
      assume "\<exists>j<length rest. host (Suc i + j) (rest ! j) = Inr h"
      then obtain j where "j < length rest" "host (Suc i + j) (rest ! j) = Inr h" by blast
      then have "Suc j < length (ip # rest) \<and> host (i + Suc j) ((ip # rest) ! Suc j) = Inr h"
        by simp
      then show ?L by blast
    qed
  qed
  then show ?case using Cons.IH [of "Suc i"] by (auto split: sum.splits)
qed

lemma shodan_loop_summary:
  "snd (shodan_loop host i ips acc) =
     \<lparr>ports_set = ports_set (snd acc) \<union> (\<Union>h\<in>set (answered host i ips). set (ports h)),
      hostnames_set = hostnames_set (snd acc) \<union> (\<Union>h\<in>set (answered host i ips). set (hostnames h)),
      organizations_set = organizations_set (snd acc) \<union> (\<Union>h\<in>set (answered host i ips). truthy (org h)),
      isps_set = isps_set (snd acc) \<union> (\<Union>h\<in>set (answered host i ips). truthy (isp h)),
      vulnerabilities_set = vulnerabilities_set (snd acc) \<union> (\<Union>h\<in>set (answered host i ips). set (vulns h))\<rparr>"
proof (induction ips arbitrary: i acc)
  case Nil
  then show ?case by simp
next
  case (Cons ip rest)
  show ?case
    by (cases "host i ip"; cases acc)
       (simp_all add: Cons.IH merge_host_def Un_assoc)
qed

lemma finite_truthy: "finite (truthy v)"
  by (simp add: truthy_def split: option.splits)


text \<open>
  C8. With an API key, a non-empty address list and a constructed client, the batch
  lookup returns a result mapping whatever the single queries do, never a top-level
  error: every address has an entry, which (for the last query of that address) is the
  host's full answer when the query answered and an error entry when it raised; and the
  summary is exactly the sorted union of what the answering addresses contributed, so a
  failing address takes nothing away from the others.
\<close>

theorem fetch_shodan_isolates_failures:
  assumes "api_key = Some k" and "k \<noteq> []" and "Shodan_init k = None" and "ips \<noteq> []"
  shows "\<exists>res. fetch_shodan Shodan_init host ips api_key = ResultsPayload res
           \<and> ips_queried res = ips
           \<and> dom (data_by_ip res) = set ips
           \<and> (\<forall>i<length ips. ips ! i \<notin> set (drop (Suc i) ips) \<longrightarrow>
                 data_by_ip res (ips ! i) = Some (entry_of (host i (ips ! i))))
           \<and> (\<forall>i<length ips. \<forall>h. host i (ips ! i) = Inr h \<longrightarrow>
                 set (ports h) \<subseteq> set (summary_ports (summary_of res))
               \<and> set (hostnames h) \<subseteq> set (summary_hostnames (summary_of res))
               \<and> truthy (org h) \<subseteq> set (summary_organizations (summary_of res))
               \<and> truthy (isp h) \<subseteq> set (summary_isps (summary_of res))
               \<and> set (vulns h) \<subseteq> set (summary_vulnerabilities (summary_of res)))
           \<and> summary_of res =
               \<lparr>summary_ports =
                  sorted_list_of_set (\<Union>h\<in>set (answered host 0 ips). set (ports h)),
                summary_hostnames =
                  sorted_list_of_set (\<Union>h\<in>set (answered host 0 ips). set (hostnames h)),
                summary_organizations =
                  sorted_list_of_set (\<Union>h\<in>set (answered host 0 ips). truthy (org h)),
                summary_isps =
                  sorted_list_of_set (\<Union>h\<in>set (answered host 0 ips). truthy (isp h)),
                summary_vulnerabilities =
                  sorted_list_of_set (\<Union>h\<in>set (answered host 0 ips). set (vulns h))\<rparr>"
proof -
  obtain d s where loop: "shodan_loop host 0 ips (Map.empty, empty_summary) = (d, s)"
    by (cases "shodan_loop host 0 ips (Map.empty, empty_summary)")
  let ?res = "\<lparr>ips_queried = ips, data_by_ip = d, summary_of = sorted_summary s\<rparr>"
  have res: "fetch_shodan Shodan_init host ips api_key = ResultsPayload ?res"
    using assms loop by (simp add: fetch_shodan_def)
  have dom: "dom d = set ips"
    using shodan_loop_dom [of host 0 ips "(Map.empty, empty_summary)"] loop by simp
  have entries: "d (ips ! i) = Some (entry_of (host i (ips ! i)))"
    if "i < length ips" "ips ! i \<notin> set (drop (Suc i) ips)" for i
    using shodan_loop_last_occurrence [OF that, of host 0 "(Map.empty, empty_summary)"] loop
    by simp
  have s: "s = \<lparr>ports_set = (\<Union>h\<in>set (answered host 0 ips). set (ports h)),
      hostnames_set = (\<Union>h\<in>set (answered host 0 ips). set (hostnames h)),
      organizations_set = (\<Union>h\<in>set (answered host 0 ips). truthy (org h)),
      isps_set = (\<Union>h\<in>set (answered host 0 ips). truthy (isp h)),
      vulnerabilities_set = (\<Union>h\<in>set (answered host 0 ips). set (vulns h))\<rparr>"
    using shodan_loop_summary [of host 0 ips "(Map.empty, empty_summary)"] loop
    by (simp add: empty_summary_def)
  have summ: "summary_of ?res =
               \<lparr>summary_ports =
                  sorted_list_of_set (\<Union>h\<in>set (answered host 0 ips). set (ports h)),
                summary_hostnames =
                  sorted_list_of_set (\<Union>h\<in>set (answered host 0 ips). set (hostnames h)),
                summary_organizations =
                  sorted_list_of_set (\<Union>h\<in>set (answered host 0 ips). truthy (org h)),
                summary_isps =
                  sorted_list_of_set (\<Union>h\<in>set (answered host 0 ips). truthy (isp h)),
                summary_vulnerabilities =
                  sorted_list_of_set (\<Union>h\<in>set (answered host 0 ips). set (vulns h))\<rparr>"
    by (simp add: sorted_summary_def s)
  have contrib: "set (ports h) \<subseteq> set (summary_ports (summary_of ?res))
               \<and> set (hostnames h) \<subseteq> set (summary_hostnames (summary_of ?res))
               \<and> truthy (org h) \<subseteq> set (summary_organizations (summary_of ?res))
               \<and> truthy (isp h) \<subseteq> set (summary_isps (summary_of ?res))
               \<and> set (vulns h) \<subseteq> set (summary_vulnerabilities (summary_of ?res))"
    if "i < length ips" "host i (ips ! i) = Inr h" for i h
  proof -
    have "h \<in> set (answered host 0 ips)"
      using that answered_iff [of h host 0 ips] by auto
    then show ?thesis
      unfolding summ by (auto simp: finite_truthy)
  qed
  show ?thesis
    unfolding res
    apply (rule exI [of _ ?res])
    apply (intro conjI)
         apply simp
        apply simp
       apply (simp add: dom)
      apply (simp add: entries)
     using contrib apply blast
    apply (rule summ)
    done
qed

theorem fetch_shodan_isolates_failures_witness:
  "fetch_shodan no_init_error example_host [''1.2.3.4'', ''bad-ip''] (Some ''key'') =
     ResultsPayload
       \<lparr>ips_queried = [''1.2.3.4'', ''bad-ip''],
        data_by_ip = [''1.2.3.4'' \<mapsto> HostData host_1234,
                      ''bad-ip'' \<mapsto> ErrorEntry ''Invalid IP'' (Some ''Invalid IP'')],
        summary_of = \<lparr>summary_ports = [80, 443], summary_hostnames = [''a.example''],
                       summary_organizations = [''Acme''], summary_isps = [''ISP''],
                       summary_vulnerabilities = [''CVE-2020-0001'']\<rparr>\<rparr>"
proof -
  have h3: "no_init_error ''key'' = None" by (simp add: no_init_error_def)
  have h2: "''key'' \<noteq> []" by simp
  have h4: "[''1.2.3.4'', ''bad-ip''] \<noteq> []" by simp
  show ?thesis
    using fetch_shodan_isolates_failures [where api_key = "Some ''key''" and k = "''key''"
        and Shodan_init = no_init_error and ips = "[''1.2.3.4'', ''bad-ip'']"
        and host = example_host, OF refl h2 h3 h4]
    by (simp add: fetch_shodan_def no_init_error_def example_host_def host_1234_def
        merge_host_def empty_summary_def sorted_summary_def truthy_def)
qed

end
